theory Spec2Isabelle
  imports Main "HOL-Library.Sublist"
begin

section \<open>The session store\<close>

text \<open>
  The backend keeps one MongoDB collection, \<^verbatim>\<open>db["session"]\<close>. A document of that
  collection carries the fields \<^verbatim>\<open>session_id\<close>, \<^verbatim>\<open>count\<close>, \<^verbatim>\<open>created_at\<close> and
  \<^verbatim>\<open>updated_at\<close>. The source reads \<^verbatim>\<open>count\<close> with \<^verbatim>\<open>doc.get("count", default)\<close>, so
  the field may be absent: it is an \<open>int option\<close>. Python's integers are unbounded, hence
  \<open>int\<close>. A timestamp (\<^verbatim>\<open>datetime.now(timezone.utc)\<close>) is an input of every operation
  that takes one.

  The collection is the list of its documents in insertion order. The source declares no
  unique index, so nothing in the type forbids two documents with one \<^verbatim>\<open>session_id\<close>;
  a query answers with the first match.

  Every store operation takes the collection and returns its result together with the
  collection it leaves behind.
\<close>

type_synonym time = nat

record session_doc =
  session_id :: string
  count :: "int option"
  created_at :: time
  updated_at :: time

type_synonym collection = "session_doc list"

text \<open>\<^verbatim>\<open>db["session"].find_one({"session_id": sid})\<close>: the first matching document.\<close>

definition find_one :: "string \<Rightarrow> collection \<Rightarrow> session_doc option \<times> collection" where
  "find_one sid coll = (find (\<lambda>d. session_id d = sid) coll, coll)"

text \<open>\<^verbatim>\<open>db["session"].insert_one(doc)\<close>: the document is added after the others.\<close>

definition insert_one :: "session_doc \<Rightarrow> collection \<Rightarrow> collection" where
  "insert_one doc coll = coll @ [doc]"

text \<open>
  The update the source sends:
  \<^verbatim>\<open>{"$inc": {"count": 1}, "$setOnInsert": {"created_at": now}, "$set": {"updated_at": now}}\<close>.
  On a document without \<^verbatim>\<open>count\<close>, \<^verbatim>\<open>$inc\<close> sets the field to the amount.
\<close>

definition apply_update :: "time \<Rightarrow> session_doc \<Rightarrow> session_doc" where
  "apply_update now d =
     d\<lparr>count := Some (case count d of None \<Rightarrow> 1 | Some c \<Rightarrow> c + 1), updated_at := now\<rparr>"

text \<open>The document an upsert inserts when the filter matches nothing.\<close>

definition upserted_doc :: "string \<Rightarrow> time \<Rightarrow> session_doc" where
  "upserted_doc sid now =
     \<lparr>session_id = sid, count = Some 1, created_at = now, updated_at = now\<rparr>"

text \<open>
  \<^verbatim>\<open>find_one_and_update(filter, update, upsert=True, return_document=True)\<close> as the
  server performs it: the first match is updated in place, or the new document is
  inserted; the document after the update is returned.
\<close>

fun find_one_and_update :: "string \<Rightarrow> time \<Rightarrow> collection \<Rightarrow> session_doc option \<times> collection" where
  "find_one_and_update sid now [] = (Some (upserted_doc sid now), [upserted_doc sid now])"
| "find_one_and_update sid now (d # ds) =
     (if session_id d = sid then (Some (apply_update now d), apply_update now d # ds)
      else (case find_one_and_update sid now ds of (r, ds') \<Rightarrow> (r, d # ds')))"

text \<open>
  The source does not trust the driver to hand the document back (``may return None on
  some drivers with upsert''), so the operation the driver offers is a parameter of
  \<open>increment_session_count\<close>; \<open>find_one_and_update\<close> above is the well-behaved one.
\<close>

type_synonym upsert_op = "string \<Rightarrow> time \<Rightarrow> collection \<Rightarrow> session_doc option \<times> collection"

section \<open>The session counter\<close>

text \<open>\<^verbatim>\<open>int(doc.get("count", default))\<close>\<close>

definition get_count :: "session_doc \<Rightarrow> int \<Rightarrow> int" where
  "get_count doc dflt = (case count doc of None \<Rightarrow> dflt | Some c \<Rightarrow> c)"

definition get_session_count :: "string \<Rightarrow> collection \<Rightarrow> int \<times> collection" where
  "get_session_count sid coll =
     (case find_one sid coll of
        (None, coll') \<Rightarrow> (0, coll')
      | (Some doc, coll') \<Rightarrow> (get_count doc 0, coll'))"

definition increment_session_count :: "upsert_op \<Rightarrow> string \<Rightarrow> time \<Rightarrow> collection \<Rightarrow> int \<times> collection" where
  "increment_session_count fau sid now coll =
     (case fau sid now coll of
        (None, coll') \<Rightarrow>
          (case find_one sid coll' of
             (None, coll'') \<Rightarrow> (1, coll'')
           | (Some doc, coll'') \<Rightarrow> (get_count doc 1, coll''))
      | (Some result, coll') \<Rightarrow> (get_count result 1, coll'))"

text \<open>\<open>n\<close> calls in sequence, one timestamp each: the counts returned and the final store.\<close>

fun increment_seq :: "upsert_op \<Rightarrow> string \<Rightarrow> time list \<Rightarrow> collection \<Rightarrow> int list \<times> collection" where
  "increment_seq fau sid [] coll = ([], coll)"
| "increment_seq fau sid (t # ts) coll =
     (case increment_session_count fau sid t coll of
        (c, coll') \<Rightarrow> (case increment_seq fau sid ts coll' of (cs, coll'') \<Rightarrow> (c # cs, coll'')))"

section \<open>Activation\<close>

text \<open>
  \<^verbatim>\<open>POST /api/activate\<close>. A dictionary literal the handler returns is the list of its
  key-value pairs, in the order of the literal.
\<close>

definition activate_ack :: "(string \<times> string) list" where
  "activate_ack =
     [(''phrase'', ''The oracle is awakened. The first card already vibrates between the veils.''),
      (''status'', ''ready'')]"

definition activate :: "string \<Rightarrow> time \<Rightarrow> collection \<Rightarrow> (string \<times> string) list \<times> collection" where
  "activate sid now coll =
     (case find_one sid coll of
        (None, coll') \<Rightarrow>
          (activate_ack,
           insert_one \<lparr>session_id = sid, count = Some 0, created_at = now, updated_at = now\<rparr> coll')
      | (Some existing, coll') \<Rightarrow> (activate_ack, coll'))"

text \<open>Any number of activations of one session in sequence, one timestamp each.\<close>

definition activate_seq :: "string \<Rightarrow> time list \<Rightarrow> collection \<Rightarrow> collection" where
  "activate_seq sid ts coll = fold (\<lambda>t c. snd (activate sid t c)) ts coll"

section \<open>Strings and randomness\<close>

text \<open>
  A Python string is represented by its UTF-8 encoding, one \<open>char\<close> per byte, so a
  glyph outside ASCII is several \<open>char\<close>s. Concatenation and equality of strings are
  those of the encodings; nothing below depends on the length of a string.
\<close>

definition newline :: string where
  "newline = [CHR 0x0A]"

definition em_dash :: string where
  "em_dash = [CHR 0xE2, CHR 0x80, CHR 0x94]"

definition ellipsis :: string where
  "ellipsis = [CHR 0xE2, CHR 0x80, CHR 0xA6]"

text \<open>The decimal numeral an f-string prints for a non-negative integer.\<close>

fun str_nat :: "nat \<Rightarrow> string" where
  "str_nat n =
     (if n < 10 then [''0123456789'' ! n]
      else str_nat (n div 10) @ [''0123456789'' ! (n mod 10)])"

text \<open>\<^verbatim>\<open>sep.join(xs)\<close>\<close>

fun join :: "string \<Rightarrow> string list \<Rightarrow> string" where
  "join sep [] = []"
| "join sep [x] = x"
| "join sep (x # y # ys) = x @ sep @ join sep (y # ys)"

text \<open>
  The generator of module \<^verbatim>\<open>random\<close> is the stream of the raw numbers it will hand
  out. \<^verbatim>\<open>_randbelow(n)\<close> takes the next one and answers with a number below \<open>n\<close>;
  every number below \<open>n\<close> is the answer for some stream.
\<close>

type_synonym rng = "nat \<Rightarrow> nat"

datatype py_error = ValueError | IndexError | UnicodeEncodeError

definition randbelow :: "nat \<Rightarrow> rng \<Rightarrow> nat \<times> rng" where
  "randbelow n g = (g 0 mod n, \<lambda>i. g (Suc i))"

text \<open>\<^verbatim>\<open>random.choice(seq)\<close>: \<^verbatim>\<open>seq[_randbelow(len(seq))]\<close>, an IndexError on an empty sequence.\<close>

definition choice :: "'a list \<Rightarrow> rng \<Rightarrow> (py_error + 'a) \<times> rng" where
  "choice seq g =
     (if seq = [] then (Inl IndexError, g)
      else (case randbelow (length seq) g of (i, g') \<Rightarrow> (Inr (seq ! i), g')))"

text \<open>
  \<^verbatim>\<open>random.sample(population, k)\<close>, the branch CPython takes for a population of at
  most 21 elements (the deck has 8):
  \<^verbatim>\<open>
  pool = list(population)
  for i in range(k):
      j = randbelow(n - i)
      result[i] = pool[j]
      pool[j] = pool[n - i - 1]
  \<close>
  \<open>sample_loop pool n i m\<close> is the loop with \<open>m\<close> rounds left, at index \<open>i\<close>.
\<close>

fun sample_loop :: "'a list \<Rightarrow> nat \<Rightarrow> nat \<Rightarrow> nat \<Rightarrow> rng \<Rightarrow> 'a list \<times> rng" where
  "sample_loop pool n i 0 g = ([], g)"
| "sample_loop pool n i (Suc m) g =
     (case randbelow (n - i) g of
        (j, g1) \<Rightarrow>
          (case sample_loop (pool[j := pool ! (n - i - 1)]) n (Suc i) m g1 of
             (result, g2) \<Rightarrow> (pool ! j # result, g2)))"

definition sample :: "'a list \<Rightarrow> nat \<Rightarrow> rng \<Rightarrow> (py_error + 'a list) \<times> rng" where
  "sample population k g =
     (let n = length population in
      if \<not> k \<le> n then (Inl ValueError, g)
      else (case sample_loop population n 0 k g of (result, g') \<Rightarrow> (Inr result, g')))"

section \<open>The deck and the reading\<close>

record card =
  name :: string
  symbol :: string
  meaning :: string
  whisper :: string

definition TAROT_DECK :: "card list" where
  "TAROT_DECK =
   [\<lparr>name = ''The Moon'',
     symbol = [CHR 0xF0, CHR 0x9F, CHR 0x8C, CHR 0x99],
     meaning = ''intuition, dreams, hidden waters'',
     whisper = ''Trust the tide beneath the mind.''\<rparr>,
    \<lparr>name = ''The Star'',
     symbol = [CHR 0xE2, CHR 0x9C, CHR 0xA8],
     meaning = ''healing, hope, luminous guidance'',
     whisper = ''A silver thread is guiding you home.''\<rparr>,
    \<lparr>name = ''The Tower'',
     symbol = [CHR 0xF0, CHR 0x9F, CHR 0x97, CHR 0xBC],
     meaning = ''revelation, rupture, divine reset'',
     whisper = ''What falls was never yours to carry.''\<rparr>,
    \<lparr>name = ''The Empress'',
     symbol = [CHR 0xF0, CHR 0x9F, CHR 0x8C, CHR 0xBF],
     meaning = ''creation, sweetness, fertile ground'',
     whisper = ''What you tend will bloom.''\<rparr>,
    \<lparr>name = ''The Magician'',
     symbol = [CHR 0xF0, CHR 0x9F, CHR 0x9C, CHR 0x82],
     meaning = ''will, craft, manifestation'',
     whisper = ''As within, so without '' @ em_dash @ '' choose and conjure.''\<rparr>,
    \<lparr>name = ''Death'',
     symbol = [CHR 0xF0, CHR 0x9F, CHR 0xA6, CHR 0x8B],
     meaning = ''transmutation, ending, sacred molt'',
     whisper = ''Shed the husk; the wings are ready.''\<rparr>,
    \<lparr>name = ''The Lovers'',
     symbol = [CHR 0xF0, CHR 0x9F, CHR 0x92, CHR 0xAB],
     meaning = ''union, choice, mirrored flame'',
     whisper = ''What you vow to becomes you.''\<rparr>,
    \<lparr>name = ''The Hermit'',
     symbol = [CHR 0xF0, CHR 0x9F, CHR 0x95, CHR 0xAF, CHR 0xEF, CHR 0xB8, CHR 0x8F],
     meaning = ''solitude, lantern, inner path'',
     whisper = ''Go inward; there is a door only you can open.''\<rparr>]"

text \<open>The value under a key of the reading payload: the cards or a string.\<close>

datatype pval = Cards "card list" | Str string

type_synonym payload = "(string \<times> pval) list"

definition address_forms :: "string list" where
  "address_forms = [''child of the Moon'', ''soul in crossing'']"

definition hooks :: "string list" where
  "hooks =
     [''Return tomorrow; I will feel new vibrations.'',
      ''Something new is coming'' @ ellipsis @ '' I will be here between the veils.'']"

definition hint :: string where
  "hint =
     ''It pulses behind the veil'' @ ellipsis @ '' holding a stronger destiny.'' @ newline @
     ''A portal is opening'' @ ellipsis @ '' but it reveals itself only to those who dare to cross.'' @ newline @
     ''The last card does not appear in public. I can reveal it ONLY inside the Portal'' @ ellipsis"

text \<open>
  The second literal of the f-string that opens the narrative; it ends with a newline, and
  \<^verbatim>\<open>join\<close> adds another after it.
\<close>

definition preamble :: string where
  "preamble =
     ''I see threads tightening and loosening around you '' @ em_dash @
     '' a design seeking your permission.'' @ newline"

definition cta_text :: string where
  "cta_text = ''Enter the Portal on WhatsApp to unveil the Hidden Card and receive a private ritual.''"

definition cta_sub_text :: string where
  "cta_sub_text =
     ''I can perform the lunar sweetening ritual to open your paths, but I need your permission'' @ ellipsis"

text \<open>
  The line of one card, an f-string: the symbol, \<^verbatim>\<open> Card \<close>, the index,
  \<^verbatim>\<open>: \<close>, the name, an em dash between two spaces, the meaning,
  \<^verbatim>\<open>. \<close> and the whisper.
\<close>

definition card_line :: "nat \<Rightarrow> card \<Rightarrow> string" where
  "card_line idx c =
     symbol c @ '' Card '' @ str_nat idx @ '': '' @ name c @ '' '' @ em_dash @ '' '' @
     meaning c @ ''. '' @ whisper c"

definition build_reading :: "card list \<Rightarrow> rng \<Rightarrow> py_error + payload" where
  "build_reading cards g =
     (case choice address_forms g of
        (Inl e, g1) \<Rightarrow> Inl e
      | (Inr addressed, g1) \<Rightarrow>
          (let lines = map (\<lambda>(idx, c). card_line idx c) (enumerate 1 cards) in
           case choice hooks g1 of
             (Inl e, g2) \<Rightarrow> Inl e
           | (Inr hook, g2) \<Rightarrow>
               (let whisper_line = addressed @ '', hear me: '' @ preamble;
                    text = join newline ([whisper_line] @ lines @ [newline @ hint, newline @ hook])
                in Inr [(''cards'', Cards cards), (''message'', Str text),
                        (''cta'', Str cta_text), (''cta_sub'', Str cta_sub_text)])))"

section \<open>The reading endpoint\<close>

definition FINAL_WARNING :: string where
  "FINAL_WARNING =
     ''If you do not act now, the veil will close. What was about to be revealed may be lost for entire cycles.'' @
     newline @ ''Only with your energetic contribution can the portal remain open.''"

definition FINAL_BLOCK :: string where
  "FINAL_BLOCK =
     ''The Oracle has been sealed after 3 visions. To continue your journey, you must activate the full ritual through the energy exchange.''"

text \<open>
  The handler answers with a list of alert objects or with one reading object.
\<close>

datatype response = Alert_list "(string \<times> string) list list" | Reading_object payload

definition alert :: "string \<Rightarrow> (string \<times> string) list" where
  "alert description = [(''name'', ''alert''), (''description'', description)]"

text \<open>
  \<^verbatim>\<open>POST /api/read\<close>. The handler draws the three cards first and the address form
  and the hook after them, from one generator.
\<close>

definition read_cards :: "upsert_op \<Rightarrow> string \<Rightarrow> time \<Rightarrow> rng \<Rightarrow> collection \<Rightarrow> (py_error + response) \<times> collection" where
  "read_cards fau sid now g coll =
     (case get_session_count sid coll of
        (total_count, coll1) \<Rightarrow>
          if total_count \<ge> 3 then (Inr (Alert_list [alert FINAL_WARNING]), coll1)
          else
            (case increment_session_count fau sid now coll1 of
               (current, coll2) \<Rightarrow>
                 if current > 3 then (Inr (Alert_list [alert FINAL_BLOCK]), coll2)
                 else
                   (case sample TAROT_DECK 3 g of
                      (Inl e, g1) \<Rightarrow> (Inl e, coll2)
                    | (Inr picks, g1) \<Rightarrow>
                        (case build_reading picks g1 of
                           Inl e \<Rightarrow> (Inl e, coll2)
                         | Inr payload \<Rightarrow> (Inr (Reading_object payload), coll2)))))"

section \<open>Requests in sequence\<close>

text \<open>
  A request carries what the handler takes from its environment: the time and, for a
  reading, the generator. \<open>run\<close> serves requests one after the other on the
  well-behaved store.
\<close>

datatype request = Activate string time | Read string time rng

fun step :: "request \<Rightarrow> collection \<Rightarrow> collection" where
  "step (Activate sid t) coll = snd (activate sid t coll)"
| "step (Read sid t g) coll = snd (read_cards find_one_and_update sid t g coll)"

definition run :: "request list \<Rightarrow> collection \<Rightarrow> collection" where
  "run reqs coll = fold step reqs coll"

text \<open>Readings of one session in sequence: the responses and the final store.\<close>

fun read_seq :: "string \<Rightarrow> (time \<times> rng) list \<Rightarrow> collection \<Rightarrow> (py_error + response) list \<times> collection" where
  "read_seq sid [] coll = ([], coll)"
| "read_seq sid ((t, g) # rest) coll =
     (case read_cards find_one_and_update sid t g coll of
        (r, coll') \<Rightarrow> (case read_seq sid rest coll' of (rs, coll'') \<Rightarrow> (r # rs, coll'')))"

section \<open>The session identifier of a request\<close>







text \<open>The count \<^verbatim>\<open>get_session_count\<close> reads for a session.\<close>

abbreviation stored_count :: "string \<Rightarrow> collection \<Rightarrow> int" where
  "stored_count sid coll \<equiv> fst (get_session_count sid coll)"

section \<open>The store operations\<close>


lemma get_session_count_store: "snd (get_session_count sid coll) = coll"
  by (simp add: get_session_count_def find_one_def split: option.splits)

lemma stored_count_find:
  "stored_count sid coll =
     (case find (\<lambda>d. session_id d = sid) coll of None \<Rightarrow> 0 | Some d \<Rightarrow> get_count d 0)"
  by (simp add: get_session_count_def find_one_def split: option.splits)

lemma find_one_and_update_unseen:
  "find (\<lambda>d. session_id d = sid) coll = None \<Longrightarrow>
   find_one_and_update sid now coll = (Some (upserted_doc sid now), coll @ [upserted_doc sid now])"
  by (induction coll) (auto split: if_splits)

lemma find_one_and_update_seen:
  "find (\<lambda>d. session_id d = sid) coll = Some d \<Longrightarrow>
   fst (find_one_and_update sid now coll) = Some (apply_update now d)"
  by (induction coll) (auto split: if_splits prod.splits)

lemma find_one_and_update_result:
  "\<exists>d. fst (find_one_and_update sid now coll) = Some d \<and> session_id d = sid"
  by (induction coll) (auto simp: upserted_doc_def apply_update_def split: prod.splits)

lemma find_after_update:
  "find (\<lambda>d. session_id d = sid) (snd (find_one_and_update sid now coll)) =
   fst (find_one_and_update sid now coll)"
  by (induction coll) (auto simp: upserted_doc_def apply_update_def split: prod.splits)

lemma find_other_after_update:
  "sid' \<noteq> sid \<Longrightarrow>
   find (\<lambda>d. session_id d = sid') (snd (find_one_and_update sid now coll)) =
   find (\<lambda>d. session_id d = sid') coll"
  by (induction coll) (auto simp: upserted_doc_def apply_update_def split: prod.splits)

lemma increment_returns:
  "fst (increment_session_count find_one_and_update sid now coll) = stored_count sid coll + 1"
proof (cases "find (\<lambda>d. session_id d = sid) coll")
  case None
  then show ?thesis
    by (simp add: increment_session_count_def find_one_and_update_unseen stored_count_find
        get_count_def upserted_doc_def)
next
  case (Some d)
  from find_one_and_update_seen [OF Some, of now]
  obtain coll' where "find_one_and_update sid now coll = (Some (apply_update now d), coll')"
    by (cases "find_one_and_update sid now coll") simp
  with Some show ?thesis
    by (simp add: increment_session_count_def stored_count_find get_count_def apply_update_def
        split: option.splits)
qed

lemma increment_store:
  "snd (increment_session_count find_one_and_update sid now coll) =
   snd (find_one_and_update sid now coll)"
  using find_one_and_update_result [of sid now coll]
  by (cases "find_one_and_update sid now coll") (auto simp: increment_session_count_def)

lemma stored_after_increment:
  "stored_count sid (snd (increment_session_count find_one_and_update sid now coll)) =
   stored_count sid coll + 1"
proof (cases "find (\<lambda>d. session_id d = sid) coll")
  case None
  then have "fst (find_one_and_update sid now coll) = Some (upserted_doc sid now)"
    by (simp add: find_one_and_update_unseen)
  with None show ?thesis
    by (simp add: increment_store stored_count_find find_after_update
        get_count_def upserted_doc_def)
next
  case (Some d)
  then show ?thesis
    by (simp add: increment_store stored_count_find find_after_update
        find_one_and_update_seen get_count_def apply_update_def split: option.splits)
qed

lemma stored_other_after_increment:
  "sid' \<noteq> sid \<Longrightarrow>
   stored_count sid' (snd (increment_session_count find_one_and_update sid now coll)) =
   stored_count sid' coll"
  by (simp add: increment_store stored_count_find find_other_after_update)


lemma increment_seq_counts:
  "fst (increment_seq find_one_and_update sid ts coll) =
   map (\<lambda>k. stored_count sid coll + int k) [1..<Suc (length ts)]"
proof (induction ts arbitrary: coll)
  case Nil
  show ?case by simp
next
  case (Cons t ts)
  obtain c coll' where inc: "increment_session_count find_one_and_update sid t coll = (c, coll')"
    by (cases "increment_session_count find_one_and_update sid t coll")
  have c: "c = stored_count sid coll + 1"
    using increment_returns [of sid t coll] inc by simp
  have st: "stored_count sid coll' = stored_count sid coll + 1"
    using stored_after_increment [of sid t coll] inc by simp
  have upt: "[1..<Suc (length (t # ts))] = 1 # map Suc [1..<Suc (length ts)]"
    by (simp add: upt_conv_Cons map_Suc_upt del: upt_Suc)
  have "fst (increment_seq find_one_and_update sid (t # ts) coll) =
        c # fst (increment_seq find_one_and_update sid ts coll')"
    using inc by (simp split: prod.splits)
  also have "\<dots> = c # map (\<lambda>k. stored_count sid coll' + int k) [1..<Suc (length ts)]"
    by (simp only: Cons.IH)
  also have "\<dots> = map (\<lambda>k. stored_count sid coll + int k) (1 # map Suc [1..<Suc (length ts)])"
    by (simp add: c st o_def add.assoc del: upt_Suc)
  finally show ?case
    by (simp only: upt)
qed

lemma activate_store:
  "snd (activate sid now coll) =
     (if find (\<lambda>d. session_id d = sid) coll = None
      then coll @ [\<lparr>session_id = sid, count = Some 0, created_at = now, updated_at = now\<rparr>]
      else coll)"
  by (auto simp: activate_def find_one_def insert_one_def split: option.splits)

lemma find_app:
  "find P (xs @ ys) = (case find P xs of None \<Rightarrow> find P ys | Some x \<Rightarrow> Some x)"
  by (induction xs) auto

lemma stored_after_activate:
  "stored_count sid' (snd (activate sid now coll)) = stored_count sid' coll"
  by (auto simp: activate_store stored_count_find find_app get_count_def split: option.splits)

lemma activate_seq_stored:
  "stored_count sid' (activate_seq sid ts coll) = stored_count sid' coll"
  unfolding activate_seq_def
  by (induction ts arbitrary: coll) (simp_all add: stored_after_activate)

section \<open>The session counter and activation: properties\<close>

text \<open>
  C9. For a session identifier with no stored record, \<open>get_session_count\<close> returns 0;
  and for every identifier it leaves the store as it found it.
\<close>

theorem read_query_unseen_zero_and_pure:
  "(fst (find_one sid coll) = None \<longrightarrow> fst (get_session_count sid coll) = 0) \<and>
   snd (get_session_count sid coll) = coll"
  by (simp add: get_session_count_def find_one_def split: option.splits)

theorem read_query_unseen_zero_and_pure_witness:
  "fst (find_one ''fresh'' [\<lparr>session_id = ''other'', count = Some 2, created_at = 1, updated_at = 5\<rparr>]) = None \<and>
   fst (get_session_count ''fresh'' [\<lparr>session_id = ''other'', count = Some 2, created_at = 1, updated_at = 5\<rparr>]) = 0 \<and>
   snd (get_session_count ''fresh'' [\<lparr>session_id = ''other'', count = Some 2, created_at = 1, updated_at = 5\<rparr>]) =
     [\<lparr>session_id = ''other'', count = Some 2, created_at = 1, updated_at = 5\<rparr>]"
  using read_query_unseen_zero_and_pure
    [of "''fresh''" "[\<lparr>session_id = ''other'', count = Some 2, created_at = 1, updated_at = 5\<rparr>]"]
  by (simp add: find_one_def)

text \<open>
  C1. When the stored count of a session is at least 3, the reading endpoint answers with
  the one-element list holding the alert with the text \<open>FINAL_WARNING\<close>, and the store
  after the call is the store before it, whatever the driver's upsert operation is.
\<close>

theorem quota_reached_warning:
  assumes "3 \<le> fst (get_session_count sid coll)"
  shows "read_cards fau sid now g coll =
           (Inr (Alert_list [[(''name'', ''alert''), (''description'', FINAL_WARNING)]]), coll)"
proof -
  obtain n where "get_session_count sid coll = (n, coll)"
    using get_session_count_store [of sid coll] by (cases "get_session_count sid coll") simp
  with assms show ?thesis
    by (simp add: read_cards_def alert_def)
qed

theorem quota_reached_warning_witness:
  "3 \<le> fst (get_session_count ''s'' [\<lparr>session_id = ''s'', count = Some 3, created_at = 1, updated_at = 4\<rparr>]) \<and>
   read_cards find_one_and_update ''s'' 9 (\<lambda>i. 0)
       [\<lparr>session_id = ''s'', count = Some 3, created_at = 1, updated_at = 4\<rparr>] =
     (Inr (Alert_list [[(''name'', ''alert''), (''description'', FINAL_WARNING)]]),
      [\<lparr>session_id = ''s'', count = Some 3, created_at = 1, updated_at = 4\<rparr>])"
proof -
  have h: "3 \<le> fst (get_session_count ''s'' [\<lparr>session_id = ''s'', count = Some 3, created_at = 1, updated_at = 4\<rparr>])"
    by (simp add: get_session_count_def find_one_def get_count_def)
  from h quota_reached_warning [OF h] show ?thesis by simp
qed

text \<open>
  C5. When the increment-and-fetch operation hands back no document,
  \<open>increment_session_count\<close> reads the record of the session from the store the
  operation left and returns its count; it returns 1 when there is no record or the record
  has no count. It returns a count in each case.
\<close>

theorem increment_fallback:
  assumes "fst (fau sid now coll) = None"
  shows "increment_session_count fau sid now coll =
           ((case fst (find_one sid (snd (fau sid now coll))) of
               None \<Rightarrow> 1
             | Some doc \<Rightarrow> (case count doc of None \<Rightarrow> 1 | Some c \<Rightarrow> c)),
            snd (fau sid now coll))"
  using assms
  by (cases "fau sid now coll")
     (simp add: increment_session_count_def find_one_def get_count_def split: option.splits)

theorem increment_fallback_witness:
  "fst ((\<lambda>sid now coll. (None, snd (find_one_and_update sid now coll))) ''s'' 7
         [\<lparr>session_id = ''s'', count = Some 1, created_at = 1, updated_at = 4\<rparr>]) = None \<and>
   increment_session_count (\<lambda>sid now coll. (None, snd (find_one_and_update sid now coll))) ''s'' 7
       [\<lparr>session_id = ''s'', count = Some 1, created_at = 1, updated_at = 4\<rparr>] =
     (2, [\<lparr>session_id = ''s'', count = Some 2, created_at = 1, updated_at = 7\<rparr>])"
  using increment_fallback
    [of "\<lambda>sid now coll. (None, snd (find_one_and_update sid now coll))" "''s''" 7
        "[\<lparr>session_id = ''s'', count = Some 1, created_at = 1, updated_at = 4\<rparr>]"]
  by (simp add: find_one_def apply_update_def)

text \<open>
  C4. On the well-behaved store, \<open>n\<close> calls of \<open>increment_session_count\<close> in
  sequence for a session without a record return 1, 2, ..., \<open>n\<close>; the first call
  creates the record at count 1, and every call returns the stored count plus one and
  leaves exactly that value stored.
\<close>

theorem increment_sequence:
  "(fst (find_one sid coll) = None \<longrightarrow>
      fst (increment_seq find_one_and_update sid ts coll) = map int [1..<Suc (length ts)] \<and>
      increment_session_count find_one_and_update sid now coll =
        (1, coll @ [\<lparr>session_id = sid, count = Some 1, created_at = now, updated_at = now\<rparr>])) \<and>
   fst (increment_session_count find_one_and_update sid now coll) =
     fst (get_session_count sid coll) + 1 \<and>
   fst (get_session_count sid (snd (increment_session_count find_one_and_update sid now coll))) =
     fst (get_session_count sid coll) + 1"
proof -
  have "fst (increment_seq find_one_and_update sid ts coll) = map int [1..<Suc (length ts)]"
    and "increment_session_count find_one_and_update sid now coll =
        (1, coll @ [\<lparr>session_id = sid, count = Some 1, created_at = now, updated_at = now\<rparr>])"
    if unseen: "fst (find_one sid coll) = None"
  proof -
    from unseen have none: "find (\<lambda>d. session_id d = sid) coll = None"
      by (simp add: find_one_def)
    then have zero: "stored_count sid coll = 0"
      by (simp add: stored_count_find)
    show "fst (increment_seq find_one_and_update sid ts coll) = map int [1..<Suc (length ts)]"
      by (simp add: increment_seq_counts zero del: upt_Suc)
    show "increment_session_count find_one_and_update sid now coll =
        (1, coll @ [\<lparr>session_id = sid, count = Some 1, created_at = now, updated_at = now\<rparr>])"
      using none
      by (simp add: increment_session_count_def find_one_and_update_unseen get_count_def
          upserted_doc_def)
  qed
  then show ?thesis
    by (simp add: increment_returns stored_after_increment del: upt_Suc)
qed

theorem increment_sequence_witness:
  "fst (find_one ''s'' []) = None \<and>
   fst (increment_seq find_one_and_update ''s'' [10, 20, 30, 40, 50] []) = [1, 2, 3, 4, 5] \<and>
   increment_session_count find_one_and_update ''s'' 10 [] =
     (1, [\<lparr>session_id = ''s'', count = Some 1, created_at = 10, updated_at = 10\<rparr>])"
proof -
  have unseen: "fst (find_one ''s'' []) = None"
    by (simp add: find_one_def)
  have upto: "map int [1..<Suc (length [10, 20, 30, 40, 50::nat])] = [1, 2, 3, 4, 5]"
    by (simp add: upt_conv_Cons)
  from increment_sequence [of "''s''" "[]" "[10, 20, 30, 40, 50]" 10] unseen
  have "fst (increment_seq find_one_and_update ''s'' [10, 20, 30, 40, 50] []) =
          map int [1..<Suc (length [10, 20, 30, 40, 50::nat])] \<and>
        increment_session_count find_one_and_update ''s'' 10 [] =
          (1, [] @ [\<lparr>session_id = ''s'', count = Some 1, created_at = 10, updated_at = 10\<rparr>])"
    by blast
  with unseen show ?thesis
    by (simp only: upto append_Nil simp_thms)
qed

text \<open>
  C8. \<open>activate\<close> on a session without a record appends the record with count 0 and
  both timestamps; on a session with a record it leaves the store unchanged; a second
  activation changes nothing; no session's count changes; any number of activations of a
  fresh session leaves its count at 0; and the answer is always the fixed acknowledgment.
\<close>

theorem activate_idempotent:
  "(fst (find_one sid coll) = None \<longrightarrow>
      snd (activate sid now coll) =
        coll @ [\<lparr>session_id = sid, count = Some 0, created_at = now, updated_at = now\<rparr>] \<and>
      fst (get_session_count sid (activate_seq sid ts coll)) = 0) \<and>
   (fst (find_one sid coll) \<noteq> None \<longrightarrow> snd (activate sid now coll) = coll) \<and>
   snd (activate sid now' (snd (activate sid now coll))) = snd (activate sid now coll) \<and>
   fst (get_session_count sid' (snd (activate sid now coll))) = fst (get_session_count sid' coll) \<and>
   fst (activate sid now coll) =
     [(''phrase'', ''The oracle is awakened. The first card already vibrates between the veils.''),
      (''status'', ''ready'')]"
proof -
  have ack: "fst (activate sid now coll) =
     [(''phrase'', ''The oracle is awakened. The first card already vibrates between the veils.''),
      (''status'', ''ready'')]"
    by (simp add: activate_def activate_ack_def find_one_def split: option.splits)
  have again: "snd (activate sid now' (snd (activate sid now coll))) = snd (activate sid now coll)"
    by (simp add: activate_store find_app split: option.splits)
  have fresh: "fst (get_session_count sid (activate_seq sid ts coll)) = 0"
    if "fst (find_one sid coll) = None"
  proof -
    from that have "stored_count sid coll = 0"
      by (simp add: stored_count_find find_one_def)
    then show ?thesis
      by (simp only: activate_seq_stored)
  qed
  have create: "snd (activate sid now coll) =
        coll @ [\<lparr>session_id = sid, count = Some 0, created_at = now, updated_at = now\<rparr>]"
    if "fst (find_one sid coll) = None"
    using that by (simp add: activate_store find_one_def)
  have keep: "snd (activate sid now coll) = coll" if "fst (find_one sid coll) \<noteq> None"
    using that by (simp add: activate_store find_one_def)
  have same: "fst (get_session_count sid' (snd (activate sid now coll))) =
        fst (get_session_count sid' coll)"
    by (rule stored_after_activate)
  show ?thesis
    using ack again fresh create keep same by blast
qed

theorem activate_idempotent_witness:
  "fst (find_one ''s'' []) = None \<and>
   fst (find_one ''s'' [\<lparr>session_id = ''s'', count = Some 2, created_at = 1, updated_at = 5\<rparr>]) \<noteq> None \<and>
   snd (activate ''s'' 3 []) = [\<lparr>session_id = ''s'', count = Some 0, created_at = 3, updated_at = 3\<rparr>] \<and>
   fst (get_session_count ''s'' (activate_seq ''s'' [3, 4, 5] [])) = 0 \<and>
   snd (activate ''s'' 9 [\<lparr>session_id = ''s'', count = Some 2, created_at = 1, updated_at = 5\<rparr>]) =
     [\<lparr>session_id = ''s'', count = Some 2, created_at = 1, updated_at = 5\<rparr>]"
  using activate_idempotent [of "''s''" "[]" 3 "[3, 4, 5]"]
    activate_idempotent [of "''s''" "[\<lparr>session_id = ''s'', count = Some 2, created_at = 1, updated_at = 5\<rparr>]" 9]
  by (simp add: find_one_def)

section \<open>Sampling and the reading endpoint: properties\<close>

lemma pool_update_distinct:
  assumes "distinct (xs @ [y])" and "j \<le> length xs"
  shows "distinct (xs[j := y]) \<and> set (xs[j := y]) = set (xs @ [y]) - {(xs @ [y]) ! j}"
proof (cases "j = length xs")
  case True
  with assms show ?thesis by (auto simp: list_update_beyond)
next
  case False
  with assms have j: "j < length xs" by simp
  with assms have "distinct (xs[j := y])"
    by (simp add: distinct_list_update)
  moreover from assms j have "set (xs[j := y]) = set (xs @ [y]) - {(xs @ [y]) ! j}"
    by (auto simp: set_update_distinct nth_append)
  ultimately show ?thesis by simp
qed

lemma pool_step:
  assumes "distinct (take (Suc k) pool)" and "Suc k \<le> length pool" and "j \<le> k"
  shows "distinct (take k (pool[j := pool ! k]))"
    and "set (take k (pool[j := pool ! k])) = set (take (Suc k) pool) - {pool ! j}"
    and "pool ! j \<in> set (take (Suc k) pool)"
proof -
  from assms have tk: "take (Suc k) pool = take k pool @ [pool ! k]"
    by (simp add: take_Suc_conv_app_nth)
  from assms have len: "length (take k pool) = k" by simp
  from assms tk have d: "distinct (take k pool @ [pool ! k])" by simp
  from pool_update_distinct [OF d, of j] assms len
  have "distinct ((take k pool)[j := pool ! k])"
    and s: "set ((take k pool)[j := pool ! k]) =
         set (take k pool @ [pool ! k]) - {(take k pool @ [pool ! k]) ! j}"
    by simp_all
  then show "distinct (take k (pool[j := pool ! k]))"
    by (simp add: take_update_swap)
  have nth: "(take k pool @ [pool ! k]) ! j = pool ! j"
    using assms by (metis tk nth_take le_imp_less_Suc)
  from s nth show "set (take k (pool[j := pool ! k])) = set (take (Suc k) pool) - {pool ! j}"
    by (simp only: tk take_update_swap)
  from assms show "pool ! j \<in> set (take (Suc k) pool)"
    by (metis nth tk nth_mem length_take min.absorb2 le_imp_less_Suc)
qed

lemma sample_loop_distinct:
  "i + m \<le> n \<Longrightarrow> n \<le> length pool \<Longrightarrow> distinct (take (n - i) pool) \<Longrightarrow>
   distinct (fst (sample_loop pool n i m g)) \<and>
   set (fst (sample_loop pool n i m g)) \<subseteq> set (take (n - i) pool) \<and>
   length (fst (sample_loop pool n i m g)) = m"
proof (induction m arbitrary: pool i g)
  case 0
  show ?case by simp
next
  case (Suc m)
  define k where "k = n - i - 1"
  define j where "j = g 0 mod (n - i)"
  define pool' where "pool' = pool[j := pool ! k]"
  from Suc.prems have ni: "n - i = Suc k" and k: "Suc k \<le> length pool"
    by (simp_all add: k_def)
  then have jk: "j \<le> k"
    by (simp add: j_def less_Suc_eq_le [symmetric])
  from Suc.prems ni have dist: "distinct (take (Suc k) pool)" by simp
  note step = pool_step [OF dist k jk]
  have nsi: "n - Suc i = k" by (simp add: k_def)
  have IH: "distinct (fst (sample_loop pool' n (Suc i) m g')) \<and>
      set (fst (sample_loop pool' n (Suc i) m g')) \<subseteq> set (take k pool') \<and>
      length (fst (sample_loop pool' n (Suc i) m g')) = m" for g'
    using Suc.IH [of "Suc i" pool' g'] Suc.prems step(1) nsi
    by (simp add: pool'_def)
  have unfold: "fst (sample_loop pool n i (Suc m) g) =
      pool ! j # fst (sample_loop pool' n (Suc i) m (\<lambda>i. g (Suc i)))"
    by (simp add: randbelow_def j_def pool'_def k_def split: prod.splits)
  from IH [of "\<lambda>i. g (Suc i)"] step(2,3) show ?case
    unfolding unfold ni pool'_def by auto
qed

lemma sample_deck:
  assumes "k \<le> length population" and "distinct population"
  shows "\<exists>picks. fst (sample population k g) = Inr picks \<and> length picks = k \<and>
           distinct picks \<and> set picks \<subseteq> set population"
proof -
  from sample_loop_distinct [of 0 k "length population" population g] assms
  have "distinct (fst (sample_loop population (length population) 0 k g)) \<and>
   set (fst (sample_loop population (length population) 0 k g)) \<subseteq> set population \<and>
   length (fst (sample_loop population (length population) 0 k g)) = k"
    by simp
  with assms show ?thesis
    by (cases "sample_loop population (length population) 0 k g") (simp add: sample_def Let_def)
qed

lemma distinct_deck: "distinct TAROT_DECK"
  by (simp add: TAROT_DECK_def)

lemma distinct_deck_names: "distinct (map name TAROT_DECK)"
  by (simp add: TAROT_DECK_def)

lemma length_deck: "length TAROT_DECK = 8"
  by (simp add: TAROT_DECK_def)


lemma choice_nonempty:
  "seq \<noteq> [] \<Longrightarrow> choice seq g = (Inr (seq ! (g 0 mod length seq)), \<lambda>i. g (Suc i))"
  by (simp add: choice_def randbelow_def)

lemma build_reading_eq:
  "build_reading cards g =
     Inr [(''cards'', Cards cards),
          (''message'',
           Str (join newline
                  ([address_forms ! (g 0 mod 2) @ '', hear me: '' @ preamble] @
                   map (\<lambda>(idx, c). card_line idx c) (enumerate 1 cards) @
                   [newline @ hint, newline @ hooks ! (g 1 mod 2)]))),
          (''cta'', Str cta_text), (''cta_sub'', Str cta_sub_text)]"
proof -
  have a: "address_forms \<noteq> []" "length address_forms = 2"
    by (simp_all add: address_forms_def)
  have h: "hooks \<noteq> []" "length hooks = 2"
    by (simp_all add: hooks_def)
  show ?thesis
    by (simp add: build_reading_def choice_nonempty a h Let_def)
qed

lemma read_cards_reading:
  assumes "fst (get_session_count sid coll) < 3"
    and "fst (increment_session_count fau sid now coll) \<le> 3"
  shows "\<exists>picks text.
           read_cards fau sid now g coll =
             (Inr (Reading_object
                     [(''cards'', Cards picks), (''message'', Str text),
                      (''cta'', Str cta_text), (''cta_sub'', Str cta_sub_text)]),
              snd (increment_session_count fau sid now coll)) \<and>
           length picks = 3 \<and> distinct picks \<and> set picks \<subseteq> set TAROT_DECK"
proof -
  obtain n where pre: "get_session_count sid coll = (n, coll)"
    using get_session_count_store [of sid coll] by (cases "get_session_count sid coll") simp
  obtain c coll2 where inc: "increment_session_count fau sid now coll = (c, coll2)"
    by (cases "increment_session_count fau sid now coll")
  from sample_deck [of 3 TAROT_DECK g] distinct_deck length_deck
  obtain picks where picks: "fst (sample TAROT_DECK 3 g) = Inr picks" "length picks = 3"
    "distinct picks" "set picks \<subseteq> set TAROT_DECK"
    by auto
  then obtain g1 where smp: "sample TAROT_DECK 3 g = (Inr picks, g1)"
    by (cases "sample TAROT_DECK 3 g") simp
  from assms pre inc have "read_cards fau sid now g coll =
      (Inr (Reading_object
         [(''cards'', Cards picks),
          (''message'',
           Str (join newline
                  ([address_forms ! (g1 0 mod 2) @ '', hear me: '' @ preamble] @
                   map (\<lambda>(idx, c). card_line idx c) (enumerate 1 picks) @
                   [newline @ hint, newline @ hooks ! (g1 1 mod 2)]))),
          (''cta'', Str cta_text), (''cta_sub'', Str cta_sub_text)]), coll2)"
    by (simp add: read_cards_def smp build_reading_eq)
  with picks inc show ?thesis by simp
qed

lemma read_cards_sealed:
  assumes "fst (get_session_count sid coll) < 3"
    and "3 < fst (increment_session_count fau sid now coll)"
  shows "read_cards fau sid now g coll =
           (Inr (Alert_list [alert FINAL_BLOCK]), snd (increment_session_count fau sid now coll))"
proof -
  obtain n where pre: "get_session_count sid coll = (n, coll)"
    using get_session_count_store [of sid coll] by (cases "get_session_count sid coll") simp
  obtain c coll2 where inc: "increment_session_count fau sid now coll = (c, coll2)"
    by (cases "increment_session_count fau sid now coll")
  from assms pre inc show ?thesis
    by (simp add: read_cards_def)
qed

text \<open>
  C3. When the count read before the increment is below 3 and the count the increment
  returns exceeds 3, the reading endpoint answers with the one-element list holding the
  alert with the text \<open>FINAL_BLOCK\<close>: an alert list, not a reading object, so no cards
  are in the answer. With the well-behaved store and no other request in between this
  cannot happen (the increment returns the count read plus one); the instance below takes the
  store operation as the request sees it when another request's increment for the same
  session lands first.
\<close>

theorem sealed_after_race:
  assumes "fst (get_session_count sid coll) < 3"
    and "3 < fst (increment_session_count fau sid now coll)"
  shows "fst (read_cards fau sid now g coll) =
           Inr (Alert_list [[(''name'', ''alert''), (''description'', FINAL_BLOCK)]])"
  by (simp add: read_cards_sealed [OF assms] alert_def)

theorem sealed_after_race_witness:
  "fst (get_session_count ''s''
          [\<lparr>session_id = ''s'', count = Some 2, created_at = 1, updated_at = 4\<rparr>]) < 3 \<and>
   3 < fst (increment_session_count
              (\<lambda>sid now coll. find_one_and_update sid now (snd (find_one_and_update sid 6 coll)))
              ''s'' 7 [\<lparr>session_id = ''s'', count = Some 2, created_at = 1, updated_at = 4\<rparr>]) \<and>
   fst (read_cards
          (\<lambda>sid now coll. find_one_and_update sid now (snd (find_one_and_update sid 6 coll)))
          ''s'' 7 (\<lambda>i. 0)
          [\<lparr>session_id = ''s'', count = Some 2, created_at = 1, updated_at = 4\<rparr>]) =
     Inr (Alert_list [[(''name'', ''alert''), (''description'', FINAL_BLOCK)]])"
proof -
  let ?coll = "[\<lparr>session_id = ''s'', count = Some 2, created_at = 1, updated_at = 4\<rparr>]"
  let ?raced = "\<lambda>sid now coll. find_one_and_update sid now (snd (find_one_and_update sid 6 coll))"
  have pre: "fst (get_session_count ''s'' ?coll) < 3"
    by (simp add: get_session_count_def find_one_def get_count_def)
  have post: "3 < fst (increment_session_count ?raced ''s'' 7 ?coll)"
    by (simp add: increment_session_count_def apply_update_def get_count_def)
  from sealed_after_race [OF pre post, of "\<lambda>i. 0"] pre post show ?thesis
    by blast
qed

text \<open>
  C6. When the count read before the increment is below 3 and the count the increment
  returns is at most 3, the answer is one reading object whose keys are exactly
  \<^verbatim>\<open>cards\<close>, \<^verbatim>\<open>message\<close>, \<^verbatim>\<open>cta\<close> and \<^verbatim>\<open>cta_sub\<close>, in this order; the cards
  are 3 entries of the 8-entry deck, pairwise distinct, with pairwise distinct names.
\<close>

theorem reading_three_distinct_cards:
  assumes "fst (get_session_count sid coll) < 3"
    and "fst (increment_session_count fau sid now coll) \<le> 3"
  shows "\<exists>picks text.
           fst (read_cards fau sid now g coll) =
             Inr (Reading_object
                    [(''cards'', Cards picks), (''message'', Str text),
                     (''cta'', Str cta_text), (''cta_sub'', Str cta_sub_text)]) \<and>
           length picks = 3 \<and> distinct picks \<and> set picks \<subseteq> set TAROT_DECK \<and>
           distinct (map name picks) \<and> length TAROT_DECK = 8"
proof -
  from read_cards_reading [OF assms, of g]
  obtain picks narrative where r: "read_cards fau sid now g coll =
             (Inr (Reading_object
                     [(''cards'', Cards picks), (''message'', Str narrative),
                      (''cta'', Str cta_text), (''cta_sub'', Str cta_sub_text)]),
              snd (increment_session_count fau sid now coll))"
    and p: "length picks = 3" "distinct picks" "set picks \<subseteq> set TAROT_DECK"
    by blast
  from distinct_deck_names have "inj_on name (set TAROT_DECK)"
    by (simp add: distinct_map)
  with p have "distinct (map name picks)"
    by (auto simp: distinct_map intro: inj_on_subset)
  with r p length_deck show ?thesis by auto
qed


theorem reading_three_distinct_cards_witness:
  "fst (get_session_count ''s'' []) < 3 \<and>
   fst (increment_session_count find_one_and_update ''s'' 5 []) \<le> 3 \<and>
   (\<exists>picks text.
      fst (read_cards find_one_and_update ''s'' 5 (\<lambda>i. 0) []) =
        Inr (Reading_object
               [(''cards'', Cards picks), (''message'', Str text),
                (''cta'', Str cta_text), (''cta_sub'', Str cta_sub_text)]) \<and>
      length picks = 3 \<and> distinct picks \<and> set picks \<subseteq> set TAROT_DECK \<and>
      distinct (map name picks) \<and> length TAROT_DECK = 8)"
proof -
  have pre: "fst (get_session_count ''s'' []) < 3"
    by (simp add: get_session_count_def find_one_def)
  have post: "fst (increment_session_count find_one_and_update ''s'' 5 []) \<le> 3"
    by (simp add: increment_session_count_def upserted_doc_def get_count_def)
  from reading_three_distinct_cards [OF pre post, of "\<lambda>i. 0"] pre post show ?thesis
    by blast
qed

lemma read_cards_at_quota:
  assumes "3 \<le> stored_count sid coll"
  shows "read_cards fau sid now g coll = (Inr (Alert_list [alert FINAL_WARNING]), coll)"
proof -
  obtain n where "get_session_count sid coll = (n, coll)"
    using get_session_count_store [of sid coll] by (cases "get_session_count sid coll") simp
  with assms show ?thesis
    by (simp add: read_cards_def)
qed

lemma read_cards_below_quota:
  assumes "stored_count sid coll < 3"
  shows "\<exists>p. read_cards find_one_and_update sid now g coll =
           (Inr (Reading_object p), snd (increment_session_count find_one_and_update sid now coll))"
proof -
  from assms have "fst (increment_session_count find_one_and_update sid now coll) \<le> 3"
    by (simp add: increment_returns)
  from read_cards_reading [OF assms this, of g] show ?thesis by blast
qed

lemma read_cards_store:
  "snd (read_cards find_one_and_update sid now g coll) =
     (if 3 \<le> stored_count sid coll then coll
      else snd (increment_session_count find_one_and_update sid now coll))"
proof (cases "3 \<le> stored_count sid coll")
  case True
  then show ?thesis by (simp add: read_cards_at_quota)
next
  case False
  then have "stored_count sid coll < 3" by simp
  from read_cards_below_quota [OF this, of now g] False show ?thesis by auto
qed

lemma stored_after_read:
  "stored_count S (snd (read_cards find_one_and_update sid now g coll)) =
     (if sid = S \<and> stored_count S coll < 3 then stored_count S coll + 1 else stored_count S coll)"
  by (cases "sid = S")
     (auto simp: read_cards_store stored_after_increment stored_other_after_increment)

lemma stored_after_step:
  "stored_count S coll \<le> stored_count S (step r coll) \<and>
   (stored_count S coll \<le> 3 \<longrightarrow> stored_count S (step r coll) \<le> 3)"
  by (cases r) (simp_all add: stored_after_activate stored_after_read)

lemma stored_after_run:
  "stored_count S coll \<le> stored_count S (run reqs coll) \<and>
   (stored_count S coll \<le> 3 \<longrightarrow> stored_count S (run reqs coll) \<le> 3)"
  unfolding run_def
proof (induction reqs arbitrary: coll)
  case Nil
  show ?case by simp
next
  case (Cons r reqs)
  from stored_after_step [of S coll r] Cons.IH [of "step r coll"] show ?case
    by (simp del: step.simps)
qed

lemma read_seq_quota:
  "stored_count S (snd (read_seq S trs coll)) =
     (if 3 \<le> stored_count S coll then stored_count S coll
      else min (stored_count S coll + int (length trs)) 3) \<and>
   (\<forall>i < length trs.
      if stored_count S coll + int i < 3
      then (\<exists>p. fst (read_seq S trs coll) ! i = Inr (Reading_object p))
      else fst (read_seq S trs coll) ! i = Inr (Alert_list [alert FINAL_WARNING]))"
proof (induction trs arbitrary: coll)
  case Nil
  show ?case by simp
next
  case (Cons tg trs)
  obtain t g where tg: "tg = (t, g)" by (cases tg)
  obtain r coll' where rd: "read_cards find_one_and_update S t g coll = (r, coll')"
    by (cases "read_cards find_one_and_update S t g coll")
  obtain rs coll'' where rest: "read_seq S trs coll' = (rs, coll'')"
    by (cases "read_seq S trs coll'")
  have unfold: "read_seq S (tg # trs) coll = (r # rs, coll'')"
    by (simp add: tg rd rest)
  have st: "stored_count S coll' =
      (if stored_count S coll < 3 then stored_count S coll + 1 else stored_count S coll)"
    using stored_after_read [of S S t g coll] rd by simp
  have r: "if stored_count S coll < 3 then (\<exists>p. r = Inr (Reading_object p))
           else r = Inr (Alert_list [alert FINAL_WARNING])"
  proof (cases "stored_count S coll < 3")
    case True
    from read_cards_below_quota [OF True, of t g] rd True show ?thesis by auto
  next
    case False
    then have "3 \<le> stored_count S coll" by simp
    from read_cards_at_quota [OF this, of find_one_and_update t g] rd False show ?thesis by simp
  qed
  note IH = Cons.IH [of coll', unfolded rest fst_conv snd_conv]
  from IH
  have IH1: "stored_count S coll'' =
     (if 3 \<le> stored_count S coll' then stored_count S coll'
      else min (stored_count S coll' + int (length trs)) 3)"
    and IH2: "\<And>i. i < length trs \<Longrightarrow>
      (if stored_count S coll' + int i < 3
       then (\<exists>p. rs ! i = Inr (Reading_object p))
       else rs ! i = Inr (Alert_list [alert FINAL_WARNING]))"
    by blast+
  have count: "stored_count S coll'' =
     (if 3 \<le> stored_count S coll then stored_count S coll
      else min (stored_count S coll + int (length (tg # trs))) 3)"
  proof -
    define n where "n = int (length trs)"
    have n: "0 \<le> n" "int (length (tg # trs)) = n + 1"
      by (simp_all add: n_def)
    from IH1 have "stored_count S coll'' =
       (if 3 \<le> stored_count S coll' then stored_count S coll'
        else min (stored_count S coll' + n) 3)"
      by (simp only: n_def)
    with st n(1) show ?thesis
      unfolding n(2) min_def by (simp split: if_splits)
  qed
  have resp: "if stored_count S coll + int i < 3
      then (\<exists>p. (r # rs) ! i = Inr (Reading_object p))
      else (r # rs) ! i = Inr (Alert_list [alert FINAL_WARNING])"
    if "i < length (tg # trs)" for i
  proof (cases i)
    case 0
    with r show ?thesis by simp
  next
    case (Suc k)
    with that have "k < length trs" by simp
    from IH2 [OF this] st Suc show ?thesis
      by (auto split: if_splits)
  qed
  from count resp show ?case
    unfolding unfold by simp
qed


text \<open>
  C2. Requests served in sequence on the well-behaved store: no request lowers the
  stored count of a session; activation leaves every count as it is, and a reading leaves
  the store unchanged or in the state the increment produced; a count that is at most 3
  stays at most 3. For a session without a record, the first three readings succeed and
  leave the count at 3, every later reading answers with the \<open>FINAL_WARNING\<close> alert,
  and a session whose count is 3 keeps it through any further requests.
\<close>

theorem count_monotone_capped:
  "stored_count S coll \<le> stored_count S (step r coll) \<and>
   stored_count S coll \<le> stored_count S (run reqs coll) \<and>
   stored_count S (snd (activate sid now coll)) = stored_count S coll \<and>
   (snd (read_cards find_one_and_update sid now g coll) = coll \<or>
    snd (read_cards find_one_and_update sid now g coll) =
      snd (increment_session_count find_one_and_update sid now coll)) \<and>
   (stored_count S coll \<le> 3 \<longrightarrow> stored_count S (run reqs coll) \<le> 3) \<and>
   (fst (find_one S coll) = None \<longrightarrow>
      stored_count S (snd (read_seq S trs coll)) = min (int (length trs)) 3 \<and>
      (\<forall>i < length trs.
         if i < 3 then (\<exists>p. fst (read_seq S trs coll) ! i = Inr (Reading_object p))
         else fst (read_seq S trs coll) ! i =
                Inr (Alert_list [[(''name'', ''alert''), (''description'', FINAL_WARNING)]]))) \<and>
   (stored_count S coll = 3 \<longrightarrow>
      stored_count S (run reqs coll) = 3 \<and>
      read_cards find_one_and_update S now g (run reqs coll) =
        (Inr (Alert_list [[(''name'', ''alert''), (''description'', FINAL_WARNING)]]),
         run reqs coll))"
proof -
  have mono_step: "stored_count S coll \<le> stored_count S (step r coll)"
    using stored_after_step [of S coll r] by simp
  have mono_run: "stored_count S coll \<le> stored_count S (run reqs coll)"
    and cap: "stored_count S coll \<le> 3 \<longrightarrow> stored_count S (run reqs coll) \<le> 3"
    using stored_after_run [of S coll reqs] by simp_all
  have act: "stored_count S (snd (activate sid now coll)) = stored_count S coll"
    by (rule stored_after_activate)
  have only_inc: "snd (read_cards find_one_and_update sid now g coll) = coll \<or>
      snd (read_cards find_one_and_update sid now g coll) =
        snd (increment_session_count find_one_and_update sid now coll)"
    by (simp add: read_cards_store)
  have fresh: "stored_count S (snd (read_seq S trs coll)) = min (int (length trs)) 3 \<and>
      (\<forall>i < length trs.
         if i < 3 then (\<exists>p. fst (read_seq S trs coll) ! i = Inr (Reading_object p))
         else fst (read_seq S trs coll) ! i =
                Inr (Alert_list [[(''name'', ''alert''), (''description'', FINAL_WARNING)]]))"
    if "fst (find_one S coll) = None"
  proof -
    from that have zero: "stored_count S coll = 0"
      by (simp add: stored_count_find find_one_def)
    from read_seq_quota [of S trs coll] show ?thesis
      unfolding zero alert_def by simp
  qed
  have frozen: "stored_count S (run reqs coll) = 3 \<and>
      read_cards find_one_and_update S now g (run reqs coll) =
        (Inr (Alert_list [[(''name'', ''alert''), (''description'', FINAL_WARNING)]]),
         run reqs coll)"
    if three: "stored_count S coll = 3"
  proof -
    from mono_run cap three have "stored_count S (run reqs coll) = 3" by simp
    then show ?thesis
      by (simp add: read_cards_at_quota alert_def)
  qed
  from mono_step mono_run act only_inc cap fresh frozen show ?thesis
    by blast
qed

theorem count_monotone_capped_witness:
  "fst (find_one ''s'' []) = None \<and>
   stored_count ''s'' [] \<le> 3 \<and>
   stored_count ''s''
     (snd (read_seq ''s'' [(1, \<lambda>i. 0), (2, \<lambda>i. 0), (3, \<lambda>i. 0), (4, \<lambda>i. 0)] [])) = 3 \<and>
   (\<exists>p. fst (read_seq ''s'' [(1, \<lambda>i. 0), (2, \<lambda>i. 0), (3, \<lambda>i. 0), (4, \<lambda>i. 0)] []) ! 2 =
          Inr (Reading_object p)) \<and>
   fst (read_seq ''s'' [(1, \<lambda>i. 0), (2, \<lambda>i. 0), (3, \<lambda>i. 0), (4, \<lambda>i. 0)] []) ! 3 =
     Inr (Alert_list [[(''name'', ''alert''), (''description'', FINAL_WARNING)]]) \<and>
   stored_count ''s'' (run [Read ''s'' 1 (\<lambda>i. 0), Activate ''s'' 2] []) \<le> 3 \<and>
   stored_count ''s'' [\<lparr>session_id = ''s'', count = Some 3, created_at = 1, updated_at = 3\<rparr>] = 3 \<and>
   stored_count ''s''
     (run [Read ''s'' 8 (\<lambda>i. 0), Activate ''s'' 9]
        [\<lparr>session_id = ''s'', count = Some 3, created_at = 1, updated_at = 3\<rparr>]) = 3"
proof -
  let ?trs = "[(1, \<lambda>i. 0), (2, \<lambda>i. 0), (3, \<lambda>i. 0), (4, \<lambda>i. 0)] :: (time \<times> rng) list"
  let ?full = "[\<lparr>session_id = ''s'', count = Some 3, created_at = 1, updated_at = 3\<rparr>]"
  have unseen: "fst (find_one ''s'' []) = None"
    by (simp add: find_one_def)
  have low: "stored_count ''s'' [] \<le> 3"
    by (simp add: get_session_count_def find_one_def)
  have three: "stored_count ''s'' ?full = 3"
    by (simp add: get_session_count_def find_one_def get_count_def)
  have len: "min (int (length ?trs)) 3 = 3" "(2::nat) < length ?trs" "(3::nat) < length ?trs"
    "(2::nat) < 3" "\<not> (3::nat) < 3"
    by simp_all
  note fresh = count_monotone_capped
    [where S = "''s''" and coll = "[]" and trs = ?trs
       and reqs = "[Read ''s'' 1 (\<lambda>i. 0), Activate ''s'' 2]"]
  note full = count_monotone_capped
    [where S = "''s''" and coll = ?full and reqs = "[Read ''s'' 8 (\<lambda>i. 0), Activate ''s'' 9]"]
  from fresh unseen
  have cnt: "stored_count ''s'' (snd (read_seq ''s'' ?trs [])) = min (int (length ?trs)) 3"
    and resp: "\<forall>i < length ?trs.
         if i < 3 then (\<exists>p. fst (read_seq ''s'' ?trs []) ! i = Inr (Reading_object p))
         else fst (read_seq ''s'' ?trs []) ! i =
                Inr (Alert_list [[(''name'', ''alert''), (''description'', FINAL_WARNING)]])"
    by blast+
  from resp len(2,4) have third: "\<exists>p. fst (read_seq ''s'' ?trs []) ! 2 = Inr (Reading_object p)"
    by (metis (no_types, lifting))
  from resp len(3,5) have fourth: "fst (read_seq ''s'' ?trs []) ! 3 =
      Inr (Alert_list [[(''name'', ''alert''), (''description'', FINAL_WARNING)]])"
    by (metis (no_types, lifting))
  from fresh low
  have capped: "stored_count ''s'' (run [Read ''s'' 1 (\<lambda>i. 0), Activate ''s'' 2] []) \<le> 3"
    by blast
  from full three
  have kept: "stored_count ''s'' (run [Read ''s'' 8 (\<lambda>i. 0), Activate ''s'' 9] ?full) = 3"
    by blast
  from unseen low cnt third fourth capped three kept show ?thesis
    unfolding len(1) by blast
qed









section \<open>The narrative: properties\<close>

lemma sublist_across_separator:
  assumes "c \<notin> set xs" and "sublist xs (a @ c # b)"
  shows "sublist xs a \<or> sublist xs b"
proof -
  from assms(2) consider "sublist xs a" | "sublist xs (c # b)"
    | xs1 xs2 where "xs = xs1 @ xs2" "suffix xs1 a" "prefix xs2 (c # b)"
    by (auto simp: sublist_append)
  then show ?thesis
  proof cases
    case 1
    then show ?thesis by simp
  next
    case 2
    with assms(1) show ?thesis
      by (cases xs) (auto simp: sublist_Cons_right prefix_Cons)
  next
    case 3
    show ?thesis
    proof (cases xs2)
      case Nil
      with 3 show ?thesis by auto
    next
      case (Cons y ys)
      with 3 assms(1) show ?thesis by (auto simp: prefix_Cons)
    qed
  qed
qed

lemma no_sublist_join:
  assumes "c \<notin> set xs" and "xs \<noteq> []"
  shows "\<forall>l \<in> set ls. \<not> sublist xs l \<Longrightarrow> \<not> sublist xs (join [c] ls)"
proof (induction "[c]" ls rule: join.induct)
  case 1
  from assms(2) show ?case by simp
next
  case (2 x)
  then show ?case by simp
next
  case (3 x y ys)
  from 3 have "\<not> sublist xs x" and "\<not> sublist xs (join [c] (y # ys))" by simp_all
  with sublist_across_separator [OF assms(1), of x "join [c] (y # ys)"] show ?case
    by auto
qed

lemma missing_char_no_sublist: "x \<in> set xs \<Longrightarrow> x \<notin> set l \<Longrightarrow> \<not> sublist xs l"
  using set_mono_sublist by fastforce

lemma str_nat_digits: "set (str_nat n) \<subseteq> set ''0123456789''"
proof (induction n rule: str_nat.induct)
  case (1 n)
  have d: "k < 10 \<Longrightarrow> ''0123456789'' ! k \<in> set ''0123456789''" for k
    by (rule nth_mem) simp
  show ?case
  proof (cases "n < 10")
    case True
    from d [OF True] show ?thesis by (subst str_nat.simps) (simp add: True)
  next
    case False
    have "n mod 10 < 10" by simp
    from d [OF this] 1 [OF False] False show ?thesis
      by (subst str_nat.simps) simp
  qed
qed



lemma card_line_lacks:
  assumes "x \<notin> set (symbol c)" "x \<notin> set (name c)" "x \<notin> set (meaning c)"
    "x \<notin> set (whisper c)" "x \<notin> set '' Card :.0123456789''" "x \<notin> set em_dash"
  shows "x \<notin> set (card_line i c)"
proof -
  from assms(5) have "x \<notin> set ''0123456789''" by simp
  with str_nat_digits [of i] have "x \<notin> set (str_nat i)" by blast
  with assms show ?thesis by (simp add: card_line_def)
qed

lemma deck_chars:
  "\<forall>c \<in> set TAROT_DECK.
     CHR ''P'' \<notin> set (symbol c) \<union> set (name c) \<union> set (meaning c) \<union> set (whisper c) \<and>
     CHR ''I'' \<notin> set (symbol c) \<union> set (name c) \<union> set (meaning c) \<union> set (whisper c)"
  by (simp add: TAROT_DECK_def em_dash_def)

lemma card_line_no_cta:
  assumes "c \<in> set TAROT_DECK"
  shows "\<not> sublist cta_text (card_line i c)" and "\<not> sublist cta_sub_text (card_line i c)"
proof -
  from deck_chars assms
  have P: "CHR ''P'' \<notin> set (symbol c)" "CHR ''P'' \<notin> set (name c)"
    "CHR ''P'' \<notin> set (meaning c)" "CHR ''P'' \<notin> set (whisper c)"
    and I: "CHR ''I'' \<notin> set (symbol c)" "CHR ''I'' \<notin> set (name c)"
    "CHR ''I'' \<notin> set (meaning c)" "CHR ''I'' \<notin> set (whisper c)"
    by blast+
  have "CHR ''P'' \<notin> set (card_line i c)"
    by (rule card_line_lacks [OF P]) (simp_all add: em_dash_def)
  moreover have "CHR ''P'' \<in> set cta_text"
    by (simp add: cta_text_def)
  ultimately show "\<not> sublist cta_text (card_line i c)"
    by (rule missing_char_no_sublist [rotated])
  have "CHR ''I'' \<notin> set (card_line i c)"
    by (rule card_line_lacks [OF I]) (simp_all add: em_dash_def)
  moreover have "CHR ''I'' \<in> set cta_sub_text"
    by (simp add: cta_sub_text_def)
  ultimately show "\<not> sublist cta_sub_text (card_line i c)"
    by (rule missing_char_no_sublist [rotated])
qed


lemma pool_chars:
  "\<forall>a \<in> set address_forms. CHR ''P'' \<notin> set a \<and> CHR 0xA6 \<notin> set a"
  "\<forall>h \<in> set hooks. CHR ''P'' \<notin> set h \<and> (CHR 0xA6 \<notin> set h \<or> CHR ''p'' \<notin> set h)"
  by (simp_all add: address_forms_def hooks_def ellipsis_def)

lemma narrative_lines:
  "address_forms ! (g 0 mod 2) @ '', hear me: '' @ preamble @ newline @
   card_line 1 c1 @ newline @ card_line 2 c2 @ newline @ card_line 3 c3 @ newline @
   newline @ hint @ newline @ newline @ hooks ! (g 1 mod 2) =
   join [CHR 0x0A]
     [address_forms ! (g 0 mod 2) @
        '', hear me: I see threads tightening and loosening around you '' @ em_dash @
        '' a design seeking your permission.'',
      [], card_line 1 c1, card_line 2 c2, card_line 3 c3, [],
      ''It pulses behind the veil'' @ ellipsis @ '' holding a stronger destiny.'',
      ''A portal is opening'' @ ellipsis @ '' but it reveals itself only to those who dare to cross.'',
      ''The last card does not appear in public. I can reveal it ONLY inside the Portal'' @ ellipsis,
      [], hooks ! (g 1 mod 2)]"
  by (simp add: newline_def preamble_def hint_def)

lemma narrative_no_cta:
  assumes "set [c1, c2, c3] \<subseteq> set TAROT_DECK"
  shows "\<not> sublist cta_text
           (address_forms ! (g 0 mod 2) @ '', hear me: '' @ preamble @ newline @
            card_line 1 c1 @ newline @ card_line 2 c2 @ newline @ card_line 3 c3 @ newline @
            newline @ hint @ newline @ newline @ hooks ! (g 1 mod 2))"
    and "\<not> sublist cta_sub_text
           (address_forms ! (g 0 mod 2) @ '', hear me: '' @ preamble @ newline @
            card_line 1 c1 @ newline @ card_line 2 c2 @ newline @ card_line 3 c3 @ newline @
            newline @ hint @ newline @ newline @ hooks ! (g 1 mod 2))"
proof -
  let ?a = "address_forms ! (g 0 mod 2)"
  let ?h = "hooks ! (g 1 mod 2)"
  let ?L0 = "?a @ '', hear me: I see threads tightening and loosening around you '' @ em_dash @
        '' a design seeking your permission.''"
  let ?H1 = "''It pulses behind the veil'' @ ellipsis @ '' holding a stronger destiny.''"
  let ?H2 = "''A portal is opening'' @ ellipsis @ '' but it reveals itself only to those who dare to cross.''"
  let ?H3 = "''The last card does not appear in public. I can reveal it ONLY inside the Portal'' @ ellipsis"
  have len: "length address_forms = 2" "length hooks = 2"
    by (simp_all add: address_forms_def hooks_def)
  have "?a \<in> set address_forms" and "?h \<in> set hooks"
    by (rule nth_mem, simp add: len)+
  with pool_chars have a: "CHR ''P'' \<notin> set ?a" "CHR 0xA6 \<notin> set ?a"
    and h: "CHR ''P'' \<notin> set ?h" "CHR 0xA6 \<notin> set ?h \<or> CHR ''p'' \<notin> set ?h"
    by blast+
  have cta: "CHR ''P'' \<in> set cta_text" "CHR ''E'' \<in> set cta_text"
    "CHR 0x0A \<notin> set cta_text" "cta_text \<noteq> []"
    by (simp_all add: cta_text_def)
  have sub: "CHR ''I'' \<in> set cta_sub_text" "CHR ''m'' \<in> set cta_sub_text"
    "CHR ''p'' \<in> set cta_sub_text" "CHR 0xA6 \<in> set cta_sub_text"
    "CHR 0x0A \<notin> set cta_sub_text" "cta_sub_text \<noteq> []"
    by (simp_all add: cta_sub_text_def ellipsis_def)
  from a have L0: "CHR ''P'' \<notin> set ?L0" "CHR 0xA6 \<notin> set ?L0"
    by (simp_all add: em_dash_def)
  have H: "CHR ''P'' \<notin> set ?H1" "CHR ''m'' \<notin> set ?H1"
    "CHR ''P'' \<notin> set ?H2" "CHR ''I'' \<notin> set ?H2"
    "CHR ''E'' \<notin> set ?H3" "CHR ''m'' \<notin> set ?H3"
    by (simp_all add: ellipsis_def)
  from assms have deck: "c1 \<in> set TAROT_DECK" "c2 \<in> set TAROT_DECK" "c3 \<in> set TAROT_DECK"
    by simp_all
  note cards = card_line_no_cta [OF deck(1), of 1] card_line_no_cta [OF deck(2), of 2]
    card_line_no_cta [OF deck(3), of 3]
  have e: "\<not> sublist cta_text []" "\<not> sublist cta_sub_text []"
    using cta(4) sub(6) by simp_all
  have "\<not> sublist cta_text ?L0" "\<not> sublist cta_text ?H1" "\<not> sublist cta_text ?H2"
    "\<not> sublist cta_text ?H3" "\<not> sublist cta_text ?h"
    by (rule missing_char_no_sublist [OF cta(1) L0(1)],
        rule missing_char_no_sublist [OF cta(1) H(1)],
        rule missing_char_no_sublist [OF cta(1) H(3)],
        rule missing_char_no_sublist [OF cta(2) H(5)],
        rule missing_char_no_sublist [OF cta(1) h(1)])
  with cards e have "\<forall>l \<in> set [?L0, [], card_line 1 c1, card_line 2 c2, card_line 3 c3, [],
      ?H1, ?H2, ?H3, [], ?h]. \<not> sublist cta_text l"
    by simp
  then show "\<not> sublist cta_text
           (address_forms ! (g 0 mod 2) @ '', hear me: '' @ preamble @ newline @
            card_line 1 c1 @ newline @ card_line 2 c2 @ newline @ card_line 3 c3 @ newline @
            newline @ hint @ newline @ newline @ hooks ! (g 1 mod 2))"
    unfolding narrative_lines by (rule no_sublist_join [OF cta(3,4)])
  from h(2) have "\<not> sublist cta_sub_text ?h"
  proof
    assume "CHR 0xA6 \<notin> set ?h"
    with sub(4) show ?thesis by (rule missing_char_no_sublist)
  next
    assume "CHR ''p'' \<notin> set ?h"
    with sub(3) show ?thesis by (rule missing_char_no_sublist)
  qed
  moreover have "\<not> sublist cta_sub_text ?L0" "\<not> sublist cta_sub_text ?H1"
    "\<not> sublist cta_sub_text ?H2" "\<not> sublist cta_sub_text ?H3"
    by (rule missing_char_no_sublist [OF sub(4) L0(2)],
        rule missing_char_no_sublist [OF sub(2) H(2)],
        rule missing_char_no_sublist [OF sub(1) H(4)],
        rule missing_char_no_sublist [OF sub(2) H(6)])
  ultimately have "\<not> sublist cta_sub_text ?L0" "\<not> sublist cta_sub_text ?H1"
    "\<not> sublist cta_sub_text ?H2" "\<not> sublist cta_sub_text ?H3" "\<not> sublist cta_sub_text ?h"
    by blast+
  with cards e have "\<forall>l \<in> set [?L0, [], card_line 1 c1, card_line 2 c2, card_line 3 c3, [],
      ?H1, ?H2, ?H3, [], ?h]. \<not> sublist cta_sub_text l"
    by simp
  then show "\<not> sublist cta_sub_text
           (address_forms ! (g 0 mod 2) @ '', hear me: '' @ preamble @ newline @
            card_line 1 c1 @ newline @ card_line 2 c2 @ newline @ card_line 3 c3 @ newline @
            newline @ hint @ newline @ newline @ hooks ! (g 1 mod 2))"
    unfolding narrative_lines by (rule no_sublist_join [OF sub(5,6)])
qed


lemma card_line_123:
  "card_line 1 c = symbol c @ '' Card 1: '' @ name c @ '' '' @ em_dash @ '' '' @ meaning c @ ''. '' @ whisper c"
  "card_line 2 c = symbol c @ '' Card 2: '' @ name c @ '' '' @ em_dash @ '' '' @ meaning c @ ''. '' @ whisper c"
  "card_line 3 c = symbol c @ '' Card 3: '' @ name c @ '' '' @ em_dash @ '' '' @ meaning c @ ''. '' @ whisper c"
  by (simp_all add: card_line_def)

lemma build_reading_three:
  "build_reading [c1, c2, c3] g =
     Inr [(''cards'', Cards [c1, c2, c3]),
          (''message'',
           Str (address_forms ! (g 0 mod 2) @ '', hear me: '' @ preamble @ newline @
                card_line 1 c1 @ newline @ card_line 2 c2 @ newline @ card_line 3 c3 @ newline @
                newline @ hint @ newline @ newline @ hooks ! (g 1 mod 2))),
          (''cta'', Str cta_text), (''cta_sub'', Str cta_sub_text)]"
proof -
  have idx: "Suc (Suc 0) = 2" "Suc (Suc (Suc 0)) = 3"
    by simp_all
  have "map (\<lambda>(idx, c). card_line idx c) (enumerate 1 [c1, c2, c3]) =
      [card_line 1 c1, card_line 2 c2, card_line 3 c3]"
    by (simp add: enumerate_simps idx del: str_nat.simps)
  then show ?thesis
    by (simp add: build_reading_eq del: str_nat.simps enumerate_simps)
qed

text \<open>
  C7. For any three cards and any generator, the narrative of \<open>build_reading\<close> is, in
  this order: the chosen address form with \<^verbatim>\<open>, hear me: \<close> and the fixed preamble
  sentence; one line per card, made of the symbol, \<^verbatim>\<open> Card \<close>, the index from 1,
  \<^verbatim>\<open>: \<close>, the name, an em dash between spaces, the meaning, \<^verbatim>\<open>. \<close> and the
  whisper; the three-line teaser \<open>hint\<close>; and the chosen hook. The address form and
  the hook each come from a pool of two. The two call-to-action strings are the fields
  \<^verbatim>\<open>cta\<close> and \<^verbatim>\<open>cta_sub\<close> of the payload, and for cards of the deck neither occurs
  anywhere inside the narrative.
\<close>

theorem narrative_composition:
  "(let narrative =
        address_forms ! (g 0 mod 2) @ '', hear me: '' @ preamble @ newline @
        symbol c1 @ '' Card 1: '' @ name c1 @ '' '' @ em_dash @ '' '' @ meaning c1 @ ''. '' @ whisper c1 @ newline @
        symbol c2 @ '' Card 2: '' @ name c2 @ '' '' @ em_dash @ '' '' @ meaning c2 @ ''. '' @ whisper c2 @ newline @
        symbol c3 @ '' Card 3: '' @ name c3 @ '' '' @ em_dash @ '' '' @ meaning c3 @ ''. '' @ whisper c3 @ newline @
        newline @ hint @ newline @
        newline @ hooks ! (g 1 mod 2)
    in build_reading [c1, c2, c3] g =
         Inr [(''cards'', Cards [c1, c2, c3]), (''message'', Str narrative),
              (''cta'', Str cta_text), (''cta_sub'', Str cta_sub_text)] \<and>
       address_forms ! (g 0 mod 2) \<in> set address_forms \<and> length address_forms = 2 \<and>
       hooks ! (g 1 mod 2) \<in> set hooks \<and> length hooks = 2 \<and>
       (set [c1, c2, c3] \<subseteq> set TAROT_DECK \<longrightarrow>
          \<not> sublist cta_text narrative \<and> \<not> sublist cta_sub_text narrative))"
proof -
  have len: "length address_forms = 2" "length hooks = 2"
    by (simp_all add: address_forms_def hooks_def)
  have mem: "address_forms ! (g 0 mod 2) \<in> set address_forms" "hooks ! (g 1 mod 2) \<in> set hooks"
    by (rule nth_mem, simp add: len)+
  note built = build_reading_three [of c1 c2 c3 g, unfolded card_line_123 append_assoc]
  note clean = narrative_no_cta [of c1 c2 c3 g, unfolded card_line_123 append_assoc]
  show ?thesis
    unfolding Let_def append_assoc
    using built len mem clean by (intro conjI impI)
qed


theorem narrative_composition_witness:
  "set [TAROT_DECK ! 0, TAROT_DECK ! 4, TAROT_DECK ! 7] \<subseteq> set TAROT_DECK \<and>
   (\<exists>narrative.
      build_reading [TAROT_DECK ! 0, TAROT_DECK ! 4, TAROT_DECK ! 7] (\<lambda>i. i) =
        Inr [(''cards'', Cards [TAROT_DECK ! 0, TAROT_DECK ! 4, TAROT_DECK ! 7]),
             (''message'', Str narrative),
             (''cta'', Str cta_text), (''cta_sub'', Str cta_sub_text)] \<and>
      \<not> sublist cta_text narrative \<and> \<not> sublist cta_sub_text narrative)"
proof -
  have deck: "set [TAROT_DECK ! 0, TAROT_DECK ! 4, TAROT_DECK ! 7] \<subseteq> set TAROT_DECK"
    by (simp add: length_deck)
  from narrative_composition
    [of "\<lambda>i. i" "TAROT_DECK ! 0" "TAROT_DECK ! 4" "TAROT_DECK ! 7", unfolded Let_def] deck
  show ?thesis
    by blast
qed

end
